theory Spec2Isabelle
  imports Main
begin

section \<open>Python string primitives used by the services\<close>

text \<open>
  Strings are lists of characters. \<open>isspace\<close> is the whitespace class shared by
  \<^verbatim>\<open>str.strip()\<close>, \<^verbatim>\<open>str.split()\<close> and the regular expression class
  \<^verbatim>\<open>\s\<close> on the code points below 256.
\<close>

abbreviation NL :: char where
  "NL \<equiv> CHR 0x0A"

abbreviation SP :: char where
  "SP \<equiv> CHR 0x20"

definition isspace :: "char \<Rightarrow> bool" where
  "isspace c \<longleftrightarrow>
     c = CHR 0x09 \<or> c = CHR 0x0A \<or> c = CHR 0x0B \<or> c = CHR 0x0C \<or> c = CHR 0x0D \<or>
     c = CHR 0x1C \<or> c = CHR 0x1D \<or> c = CHR 0x1E \<or> c = CHR 0x1F \<or> c = CHR 0x20 \<or>
     c = CHR 0x85 \<or> c = CHR 0xA0"

text \<open>\<^verbatim>\<open>s.strip()\<close>: drop leading and trailing whitespace.\<close>

definition strip :: "string \<Rightarrow> string" where
  "strip s = rev (dropWhile isspace (rev (dropWhile isspace s)))"

text \<open>\<^verbatim>\<open>re.sub(r'\s+', ' ', text)\<close>: every maximal run of whitespace becomes one space.\<close>

function sub_ws_runs :: "string \<Rightarrow> string" where
  "sub_ws_runs [] = []"
| "sub_ws_runs (c # cs) =
     (if isspace c then SP # sub_ws_runs (dropWhile isspace cs) else c # sub_ws_runs cs)"
  by pat_completeness auto
termination
  by (relation "measure length") (auto simp: length_dropWhile_le less_Suc_eq_le)

text \<open>
  \<^verbatim>\<open>re.sub(r'\n\s*\n', '\n\n', text)\<close>: scanning from the left, a newline followed by a
  whitespace run that holds another newline matches up to the last newline of that run
  (the star is greedy) and is replaced by two newlines; the scan resumes after the match.
\<close>

function sub_blank_lines :: "string \<Rightarrow> string" where
  "sub_blank_lines [] = []"
| "sub_blank_lines (c # cs) =
     (if c = NL \<and> NL \<in> set (takeWhile isspace cs)
      then NL # NL # sub_blank_lines
             (drop (length (dropWhile (\<lambda>x. x \<noteq> NL) (rev (takeWhile isspace cs)))) cs)
      else c # sub_blank_lines cs)"
  by pat_completeness auto
termination
  by (relation "measure length") auto

text \<open>\<^verbatim>\<open>len(s)\<close> as a Python integer.\<close>

abbreviation len :: "'a list \<Rightarrow> int" where
  "len s \<equiv> int (length s)"

text \<open>
  \<^verbatim>\<open>s[a:b]\<close>: a negative bound counts from the end, every bound is clamped to the
  string, and an empty range gives the empty string.
\<close>

definition slice :: "'a list \<Rightarrow> int \<Rightarrow> int \<Rightarrow> 'a list" where
  "slice s a b =
     (let n = len s;
          lo = (if a < 0 then max 0 (n + a) else min n a);
          hi = (if b < 0 then max 0 (n + b) else min n b)
      in take (nat (hi - lo)) (drop (nat lo) s))"

datatype py_error = IndexError

text \<open>\<^verbatim>\<open>s[i]\<close>: a negative index counts from the end; out of range raises.\<close>

definition char_at :: "string \<Rightarrow> int \<Rightarrow> py_error + char" where
  "char_at s i =
     (let n = len s; j = (if i < 0 then n + i else i)
      in if 0 \<le> j \<and> j < n then Inr (s ! nat j) else Inl IndexError)"

text \<open>\<^verbatim>\<open>s.find(sub)\<close>: the lowest index where \<open>sub\<close> occurs, or \<open>-1\<close>.\<close>

fun find :: "string \<Rightarrow> string \<Rightarrow> int" where
  "find [] sub = (if sub = [] then 0 else - 1)"
| "find (c # cs) sub =
     (if take (length sub) (c # cs) = sub then 0
      else (let r = find cs sub in if r = - 1 then - 1 else r + 1))"

text \<open>\<^verbatim>\<open>s.split()\<close>: the maximal runs of non-whitespace characters.\<close>

function split_ws :: "string \<Rightarrow> string list" where
  "split_ws s =
     (let t = dropWhile isspace s
      in if t = [] then []
         else takeWhile (\<lambda>c. \<not> isspace c) t # split_ws (dropWhile (\<lambda>c. \<not> isspace c) t))"
  by pat_completeness auto
termination
proof (relation "measure length")
  show "wf (measure length)" by simp
next
  fix s t :: string
  assume t: "t = dropWhile isspace s" and ne: "t \<noteq> []"
  from ne obtain c cs where c: "t = c # cs" by (cases t) blast+
  have "\<not> isspace (hd t)" using t ne hd_dropWhile [of isspace s] by blast
  then have "\<not> isspace c" using c by simp
  then have "dropWhile (\<lambda>c. \<not> isspace c) t = dropWhile (\<lambda>c. \<not> isspace c) cs"
    using c by simp
  then have "length (dropWhile (\<lambda>c. \<not> isspace c) t) \<le> length cs"
    by (simp add: length_dropWhile_le)
  moreover have "length t \<le> length s" using t by (simp add: length_dropWhile_le)
  ultimately show "(dropWhile (\<lambda>c. \<not> isspace c) t, s) \<in> measure length"
    using c by simp
qed

section \<open>PDFProcessingService: text normalisation\<close>

definition clean_text :: "string \<Rightarrow> string" where
  "clean_text text = strip (sub_blank_lines (sub_ws_runs text))"

text \<open>Strings whose only whitespace is isolated single spaces: the shape of a cleaned text.\<close>

fun single_spaced :: "string \<Rightarrow> bool" where
  "single_spaced [] = True"
| "single_spaced [c] = (isspace c \<longrightarrow> c = SP)"
| "single_spaced (a # b # cs) =
     ((isspace a \<longrightarrow> a = SP \<and> \<not> isspace b) \<and> single_spaced (b # cs))"

section \<open>PDFProcessingService: chunking\<close>

text \<open>The chunking configuration set by the constructor.\<close>

record service =
  chunk_size :: int
  chunk_overlap :: int
  min_chunk_size :: int

definition init_service :: service where
  "init_service = \<lparr>chunk_size = 1000, chunk_overlap = 200, min_chunk_size = 100\<rparr>"

record chunk =
  chunk_text :: string
  chunk_index :: int
  start_char :: int
  end_char :: int
  char_count :: int
  word_count :: int
  pdf_name :: string

subsection \<open>\<^verbatim>\<open>_find_natural_break\<close>\<close>

definition break_chars :: "string list" where
  "break_chars =
     [[NL, NL],
      [CHR ''.'', SP], [CHR ''.'', NL], [CHR ''!'', SP], [CHR ''!'', NL],
      [CHR ''?'', SP], [CHR ''?'', NL], [CHR '';'', SP], [CHR '';'', NL],
      [CHR '':'', SP], [CHR '':'', NL], [CHR '','', SP], [CHR '','', NL]]"

text \<open>
  The loop over \<open>break_chars\<close>. Its state is \<open>best_pos\<close> with \<open>best_distance\<close>;
  \<open>None\<close> is the initial state (no position, infinite distance).
\<close>

fun scan_breaks ::
  "string \<Rightarrow> int \<Rightarrow> int \<Rightarrow> string list \<Rightarrow> (int \<times> int) option \<Rightarrow> (int \<times> int) option" where
  "scan_breaks search_text search_start preferred_end [] best = best"
| "scan_breaks search_text search_start preferred_end (break_char # rest) best =
     (let pos = find search_text break_char
      in if pos \<noteq> - 1
         then (let absolute_pos = search_start + pos + len break_char;
                   distance = \<bar>absolute_pos - preferred_end\<bar>
               in if (case best of None \<Rightarrow> True | Some (best_pos, best_distance) \<Rightarrow>
                        distance < best_distance)
                  then scan_breaks search_text search_start preferred_end rest
                         (Some (absolute_pos, distance))
                  else scan_breaks search_text search_start preferred_end rest best)
         else scan_breaks search_text search_start preferred_end rest best)"

text \<open>
  The fallback loop \<^verbatim>\<open>for i in range(preferred_end, search_start - 1, -1)\<close>:
  \<open>Inr (Some (i + 1))\<close> at the first space met, \<open>Inr None\<close> when the range is used up.
\<close>

function space_before :: "string \<Rightarrow> int \<Rightarrow> int \<Rightarrow> py_error + int option" where
  "space_before text i search_start =
     (if i < search_start then Inr None
      else if i < len text
      then (case char_at text i of
              Inl e \<Rightarrow> Inl e
            | Inr c \<Rightarrow> if c = SP then Inr (Some (i + 1))
                       else space_before text (i - 1) search_start)
      else space_before text (i - 1) search_start)"
  by pat_completeness auto
termination
  by (relation "measure (\<lambda>(text, i, search_start). nat (i + 1 - search_start))") auto

definition find_natural_break :: "string \<Rightarrow> int \<Rightarrow> int \<Rightarrow> int" where
  "find_natural_break text start preferred_end =
     (if preferred_end \<ge> len text then len text
      else if preferred_end \<le> start then preferred_end
      else (let search_window = min 50 ((preferred_end - start) div 2);
                search_start = max (preferred_end - search_window) start;
                search_end = min (preferred_end + search_window) (len text);
                search_text = slice text search_start search_end
            in case scan_breaks search_text search_start preferred_end break_chars None of
                 Some (best_pos, best_distance) \<Rightarrow> best_pos
               | None \<Rightarrow>
                   (case space_before text preferred_end search_start of
                      Inr (Some p) \<Rightarrow> p
                    | Inr None \<Rightarrow> preferred_end
                    | Inl e \<Rightarrow> preferred_end)))"

subsection \<open>\<^verbatim>\<open>create_text_chunks\<close>\<close>

text \<open>The end of the chunk that starts at \<open>start\<close>.\<close>

definition chunk_end :: "service \<Rightarrow> string \<Rightarrow> int \<Rightarrow> int" where
  "chunk_end self text start =
     (let end_pos = start + chunk_size self
      in if end_pos < len text then find_natural_break text start end_pos else len text)"

text \<open>The chunk is appended when its stripped text is long enough.\<close>

definition emit :: "service \<Rightarrow> string \<Rightarrow> string \<Rightarrow> chunk list \<Rightarrow> int \<Rightarrow> int \<Rightarrow> int
    \<Rightarrow> chunk list \<times> int" where
  "emit self text name chunks idx start end_pos =
     (let piece = strip (slice text start end_pos)
      in if len piece \<ge> min_chunk_size self
         then (chunks @ [\<lparr>chunk_text = piece, chunk_index = idx, start_char = start,
                          end_char = end_pos, char_count = len piece,
                          word_count = len (split_ws piece), pdf_name = name\<rparr>],
               idx + 1)
         else (chunks, idx))"

text \<open>The next start: overlap, clamping at 0, the forced advance and the final correction.\<close>

definition advance :: "service \<Rightarrow> string \<Rightarrow> int \<Rightarrow> int \<Rightarrow> int" where
  "advance self text old_start end_pos =
     (let start = end_pos - chunk_overlap self;
          start = (if start < 0 then 0 else start);
          start = (if start \<le> old_start
                   then old_start + max 1 (chunk_size self div 2) else start)
      in if start \<ge> end_pos \<and> end_pos < len text then end_pos else start)"

text \<open>
  The \<^verbatim>\<open>while\<close> loop; it returns the chunks and the final \<open>iteration_count\<close>.
\<close>

function chunk_loop ::
  "service \<Rightarrow> string \<Rightarrow> string \<Rightarrow> int \<Rightarrow> chunk list \<Rightarrow> int \<Rightarrow> int \<Rightarrow> int
    \<Rightarrow> chunk list \<times> int" where
  "chunk_loop self text name max_iterations chunks idx start iteration_count =
     (if start < len text \<and> iteration_count < max_iterations
      then (let end_pos = chunk_end self text start;
                (chunks', idx') = emit self text name chunks idx start end_pos
            in chunk_loop self text name max_iterations chunks' idx'
                 (advance self text start end_pos) (iteration_count + 1))
      else (chunks, iteration_count))"
  by pat_completeness auto
termination
  by (relation "measure (\<lambda>(self, text, name, max_iterations, chunks, idx, start, iteration_count).
        nat (max_iterations - iteration_count))") auto

definition chunking :: "service \<Rightarrow> string \<Rightarrow> string \<Rightarrow> chunk list \<times> int" where
  "chunking self raw name =
     (let text = clean_text raw
      in if len text < min_chunk_size self
         then ([\<lparr>chunk_text = text, chunk_index = 0, start_char = 0, end_char = len text,
                  char_count = len text, word_count = len (split_ws text),
                  pdf_name = name\<rparr>], 0)
         else chunk_loop self text name (len text div 100 + 100) [] 0 0 0)"

definition create_text_chunks :: "service \<Rightarrow> string \<Rightarrow> string \<Rightarrow> chunk list" where
  "create_text_chunks self raw name = fst (chunking self raw name)"

text \<open>The number of loop iterations \<^verbatim>\<open>create_text_chunks\<close> runs on a text.\<close>

definition chunk_iterations :: "service \<Rightarrow> string \<Rightarrow> string \<Rightarrow> int" where
  "chunk_iterations self raw name = snd (chunking self raw name)"

subsection \<open>Break candidates, for stating what \<^verbatim>\<open>_find_natural_break\<close> returns\<close>

text \<open>
  The end positions the loop over \<open>break_chars\<close> computes: for each break kind that
  occurs in the search text, the end of its leftmost occurrence, in priority order.
\<close>

definition first_break_ends :: "string \<Rightarrow> int \<Rightarrow> string list \<Rightarrow> int list" where
  "first_break_ends search_text search_start kinds =
     map (\<lambda>k. search_start + find search_text k + len k)
       (filter (\<lambda>k. find search_text k \<noteq> - 1) kinds)"

text \<open>
  The end positions of all occurrences of all break kinds that lie inside the window
  \<open>[lo, hi)\<close> of the text.
\<close>

definition all_break_ends :: "string \<Rightarrow> int \<Rightarrow> int \<Rightarrow> int list" where
  "all_break_ends text lo hi =
     concat (map (\<lambda>p. map (\<lambda>k. p)
                    (filter (\<lambda>k. lo \<le> p - len k \<and> slice text (p - len k) p = k) break_chars))
                 [lo..hi])"

text \<open>The choice among candidate positions that the loop makes, on the positions alone.\<close>

fun pick :: "int \<Rightarrow> int list \<Rightarrow> (int \<times> int) option \<Rightarrow> (int \<times> int) option" where
  "pick pe [] best = best"
| "pick pe (p # ps) best =
     (if (case best of None \<Rightarrow> True | Some (bp, bd) \<Rightarrow> \<bar>p - pe\<bar> < bd)
      then pick pe ps (Some (p, \<bar>p - pe\<bar>)) else pick pe ps best)"

text \<open>A sample text with two full stops around position 10.\<close>

definition two_stops :: string where
  "two_stops = ''aaaaa. a. aaaaaa''"

section \<open>Properties of text normalisation\<close>

lemma isspace_SP [simp]: "isspace SP"
  by (simp add: isspace_def)

lemma isspace_NL [simp]: "isspace NL"
  by (simp add: isspace_def)

lemma sub_ws_runs_nonspace_head:
  "\<not> isspace d \<Longrightarrow> sub_ws_runs (d # ds) = d # sub_ws_runs ds"
  by simp

lemma single_spaced_Cons:
  "single_spaced (a # t) \<longleftrightarrow>
     (isspace a \<longrightarrow> a = SP \<and> (t = [] \<or> \<not> isspace (hd t))) \<and> single_spaced t"
  by (cases t) auto

lemma sub_ws_runs_head:
  "sub_ws_runs s = [] \<or> (isspace (hd (sub_ws_runs s)) \<longleftrightarrow> isspace (hd s))"
  by (cases s) auto

lemma dropWhile_head_not: "dropWhile P xs = [] \<or> \<not> P (hd (dropWhile P xs))"
  using hd_dropWhile by blast

lemma single_spaced_sub_ws_runs: "single_spaced (sub_ws_runs s)"
proof (induction s rule: sub_ws_runs.induct)
  case 1
  show ?case by simp
next
  case (2 c cs)
  show ?case
  proof (cases "isspace c")
    case True
    let ?r = "dropWhile isspace cs"
    have ih: "single_spaced (sub_ws_runs ?r)" using 2(1) True by simp
    have "sub_ws_runs ?r = [] \<or> \<not> isspace (hd (sub_ws_runs ?r))"
    proof (cases "?r = []")
      case True
      then show ?thesis by (simp only: sub_ws_runs.simps(1) simp_thms)
    next
      case False
      then have "\<not> isspace (hd ?r)" using dropWhile_head_not [of isspace cs] by blast
      then show ?thesis using sub_ws_runs_head [of ?r] by blast
    qed
    then show ?thesis using True ih by (simp add: single_spaced_Cons)
  next
    case False
    then show ?thesis using 2(2) by (simp add: single_spaced_Cons)
  qed
qed

lemma single_spaced_fixed: "single_spaced s \<Longrightarrow> sub_ws_runs s = s"
proof (induction s rule: single_spaced.induct)
  case 1
  show ?case by simp
next
  case (2 c)
  then show ?case by simp
next
  case (3 a b cs)
  then show ?case by auto
qed

lemma single_spaced_no_NL: "single_spaced s \<Longrightarrow> NL \<notin> set s"
  by (induction s rule: single_spaced.induct) auto

lemma no_NL_sub_blank_lines: "NL \<notin> set s \<Longrightarrow> sub_blank_lines s = s"
  by (induction s) auto

lemma single_spaced_append:
  "single_spaced (xs @ ys) \<Longrightarrow> single_spaced xs \<and> single_spaced ys"
proof (induction xs rule: single_spaced.induct)
  case 1
  then show ?case by simp
next
  case (2 c)
  then show ?case by (cases ys) auto
next
  case (3 a b cs)
  then show ?case by auto
qed

lemma single_spaced_strip: "single_spaced s \<Longrightarrow> single_spaced (strip s)"
proof -
  assume s: "single_spaced s"
  let ?u = "dropWhile isspace s"
  have "s = takeWhile isspace s @ ?u" by simp
  then have u: "single_spaced ?u" using s single_spaced_append by metis
  have "?u = strip s @ rev (takeWhile isspace (rev ?u))"
    unfolding strip_def by (metis rev_append rev_rev_ident takeWhile_dropWhile_id)
  then show ?thesis using u single_spaced_append by metis
qed

lemma strip_ends:
  "strip s = [] \<or> (\<not> isspace (hd (strip s)) \<and> \<not> isspace (last (strip s)))"
proof (cases "strip s = []")
  case True
  then show ?thesis by simp
next
  case False
  let ?u = "dropWhile isspace s"
  let ?w = "dropWhile isspace (rev ?u)"
  have w: "?w \<noteq> []" using False by (simp add: strip_def)
  then have hw: "\<not> isspace (hd ?w)" using dropWhile_head_not [of isspace "rev ?u"] by blast
  have u: "?u \<noteq> []"
  proof
    assume "?u = []"
    then have "?w = []" by (simp only: rev.simps dropWhile.simps)
    then show False using w by blast
  qed
  then have hu: "\<not> isspace (hd ?u)" using dropWhile_head_not [of isspace s] by blast
  have "rev ?u = takeWhile isspace (rev ?u) @ ?w" by simp
  then have "last (rev ?u) = last ?w" using w by (metis last_appendR)
  then have lw: "last ?w = hd ?u" using u by (simp add: last_rev)
  have "hd (strip s) = last ?w" using w by (simp add: strip_def hd_rev)
  moreover have "last (strip s) = hd ?w" using w by (simp add: strip_def last_rev)
  ultimately show ?thesis using hw hu lw by simp
qed

lemma strip_fixed:
  assumes "t = [] \<or> (\<not> isspace (hd t) \<and> \<not> isspace (last t))"
  shows "strip t = t"
proof (cases "t = []")
  case True
  then show ?thesis by (simp add: strip_def)
next
  case False
  then have h: "\<not> isspace (hd t)" and l: "\<not> isspace (last t)" using assms by auto
  have a: "dropWhile isspace t = t" using False h by (cases t) auto
  have "rev t \<noteq> []" using False by simp
  moreover have "\<not> isspace (hd (rev t))" using False l by (simp add: hd_rev)
  ultimately have "dropWhile isspace (rev t) = rev t" by (cases "rev t") auto
  then show ?thesis using a by (simp add: strip_def)
qed

lemma clean_text_single_spaced: "single_spaced (clean_text s)"
proof -
  have a: "single_spaced (sub_ws_runs s)" by (rule single_spaced_sub_ws_runs)
  then have "sub_blank_lines (sub_ws_runs s) = sub_ws_runs s"
    by (simp add: single_spaced_no_NL no_NL_sub_blank_lines)
  then show ?thesis using a by (simp add: clean_text_def single_spaced_strip)
qed

lemma clean_text_fixed:
  assumes "single_spaced t" and "t = [] \<or> (\<not> isspace (hd t) \<and> \<not> isspace (last t))"
  shows "clean_text t = t"
proof -
  have "sub_ws_runs t = t" using assms(1) by (rule single_spaced_fixed)
  moreover have "sub_blank_lines t = t"
    using assms(1) by (simp add: single_spaced_no_NL no_NL_sub_blank_lines)
  ultimately show ?thesis using assms(2) by (simp add: clean_text_def strip_fixed)
qed

text \<open>
  Claim C9. Whitespace normalisation is idempotent: cleaning an already cleaned text
  returns it unchanged, for every input string.
\<close>

theorem clean_text_idempotent: "clean_text (clean_text s) = clean_text s"
proof -
  have "strip (sub_blank_lines (sub_ws_runs s)) = []
      \<or> (\<not> isspace (hd (strip (sub_blank_lines (sub_ws_runs s))))
         \<and> \<not> isspace (last (strip (sub_blank_lines (sub_ws_runs s)))))"
    by (rule strip_ends)
  then have "clean_text s = [] \<or> (\<not> isspace (hd (clean_text s)) \<and> \<not> isspace (last (clean_text s)))"
    by (simp add: clean_text_def)
  then show ?thesis using clean_text_single_spaced clean_text_fixed by blast
qed

section \<open>What \<^verbatim>\<open>_find_natural_break\<close> returns\<close>

lemma scan_breaks_pick:
  "scan_breaks w lo pe kinds best = pick pe (first_break_ends w lo kinds) best"
  by (induction kinds arbitrary: best) (auto simp: first_break_ends_def Let_def)

lemma pick_some:
  "pick pe ps (Some (bp, \<bar>bp - pe\<bar>)) = Some (r, d) \<Longrightarrow>
     d = \<bar>r - pe\<bar> \<and>
     ((r = bp \<and> (\<forall>p\<in>set ps. \<bar>bp - pe\<bar> \<le> \<bar>p - pe\<bar>)) \<or>
      (\<exists>pre post. ps = pre @ r # post \<and> \<bar>r - pe\<bar> < \<bar>bp - pe\<bar> \<and>
         (\<forall>p\<in>set pre. \<bar>r - pe\<bar> < \<bar>p - pe\<bar>) \<and> (\<forall>p\<in>set post. \<bar>r - pe\<bar> \<le> \<bar>p - pe\<bar>)))"
proof (induction ps arbitrary: bp)
  case Nil
  then show ?case by auto
next
  case (Cons p ps)
  show ?case
  proof (cases "\<bar>p - pe\<bar> < \<bar>bp - pe\<bar>")
    case True
    then have "pick pe ps (Some (p, \<bar>p - pe\<bar>)) = Some (r, d)" using Cons.prems by simp
    from Cons.IH [OF this] have d: "d = \<bar>r - pe\<bar>"
      and alt: "(r = p \<and> (\<forall>q\<in>set ps. \<bar>p - pe\<bar> \<le> \<bar>q - pe\<bar>)) \<or>
        (\<exists>pre post. ps = pre @ r # post \<and> \<bar>r - pe\<bar> < \<bar>p - pe\<bar> \<and>
         (\<forall>q\<in>set pre. \<bar>r - pe\<bar> < \<bar>q - pe\<bar>) \<and> (\<forall>q\<in>set post. \<bar>r - pe\<bar> \<le> \<bar>q - pe\<bar>))"
      by blast+
    from alt show ?thesis
    proof
      assume a: "r = p \<and> (\<forall>q\<in>set ps. \<bar>p - pe\<bar> \<le> \<bar>q - pe\<bar>)"
      then have "p # ps = [] @ r # ps \<and> \<bar>r - pe\<bar> < \<bar>bp - pe\<bar> \<and>
         (\<forall>q\<in>set []. \<bar>r - pe\<bar> < \<bar>q - pe\<bar>) \<and> (\<forall>q\<in>set ps. \<bar>r - pe\<bar> \<le> \<bar>q - pe\<bar>)"
        using True by simp
      then show ?thesis using d by blast
    next
      assume "\<exists>pre post. ps = pre @ r # post \<and> \<bar>r - pe\<bar> < \<bar>p - pe\<bar> \<and>
         (\<forall>q\<in>set pre. \<bar>r - pe\<bar> < \<bar>q - pe\<bar>) \<and> (\<forall>q\<in>set post. \<bar>r - pe\<bar> \<le> \<bar>q - pe\<bar>)"
      then obtain pre post where pp: "ps = pre @ r # post" "\<bar>r - pe\<bar> < \<bar>p - pe\<bar>"
         "\<forall>q\<in>set pre. \<bar>r - pe\<bar> < \<bar>q - pe\<bar>" "\<forall>q\<in>set post. \<bar>r - pe\<bar> \<le> \<bar>q - pe\<bar>"
        by blast
      then have "p # ps = (p # pre) @ r # post \<and> \<bar>r - pe\<bar> < \<bar>bp - pe\<bar> \<and>
         (\<forall>q\<in>set (p # pre). \<bar>r - pe\<bar> < \<bar>q - pe\<bar>) \<and> (\<forall>q\<in>set post. \<bar>r - pe\<bar> \<le> \<bar>q - pe\<bar>)"
        using True by simp
      then show ?thesis using d by blast
    qed
  next
    case False
    then have "pick pe ps (Some (bp, \<bar>bp - pe\<bar>)) = Some (r, d)" using Cons.prems by simp
    from Cons.IH [OF this] have d: "d = \<bar>r - pe\<bar>"
      and alt: "(r = bp \<and> (\<forall>q\<in>set ps. \<bar>bp - pe\<bar> \<le> \<bar>q - pe\<bar>)) \<or>
        (\<exists>pre post. ps = pre @ r # post \<and> \<bar>r - pe\<bar> < \<bar>bp - pe\<bar> \<and>
         (\<forall>q\<in>set pre. \<bar>r - pe\<bar> < \<bar>q - pe\<bar>) \<and> (\<forall>q\<in>set post. \<bar>r - pe\<bar> \<le> \<bar>q - pe\<bar>))"
      by blast+
    from alt show ?thesis
    proof
      assume "r = bp \<and> (\<forall>q\<in>set ps. \<bar>bp - pe\<bar> \<le> \<bar>q - pe\<bar>)"
      then show ?thesis using d False by auto
    next
      assume "\<exists>pre post. ps = pre @ r # post \<and> \<bar>r - pe\<bar> < \<bar>bp - pe\<bar> \<and>
         (\<forall>q\<in>set pre. \<bar>r - pe\<bar> < \<bar>q - pe\<bar>) \<and> (\<forall>q\<in>set post. \<bar>r - pe\<bar> \<le> \<bar>q - pe\<bar>)"
      then obtain pre post where pp: "ps = pre @ r # post" "\<bar>r - pe\<bar> < \<bar>bp - pe\<bar>"
         "\<forall>q\<in>set pre. \<bar>r - pe\<bar> < \<bar>q - pe\<bar>" "\<forall>q\<in>set post. \<bar>r - pe\<bar> \<le> \<bar>q - pe\<bar>"
        by blast
      then have "p # ps = (p # pre) @ r # post \<and> \<bar>r - pe\<bar> < \<bar>bp - pe\<bar> \<and>
         (\<forall>q\<in>set (p # pre). \<bar>r - pe\<bar> < \<bar>q - pe\<bar>) \<and> (\<forall>q\<in>set post. \<bar>r - pe\<bar> \<le> \<bar>q - pe\<bar>)"
        using False by simp
      then show ?thesis using d by blast
    qed
  qed
qed

lemma pick_keeps_some: "\<exists>r d. pick pe ps (Some b) = Some (r, d)"
  by (induction ps arbitrary: b) (auto split: prod.splits)

lemma pick_none:
  "pick pe ps None = None \<longleftrightarrow> ps = []"
proof (cases ps)
  case Nil
  then show ?thesis by simp
next
  case (Cons p qs)
  then show ?thesis using pick_keeps_some [of pe qs "(p, \<bar>p - pe\<bar>)"] by auto
qed

lemma pick_first_closest:
  assumes "pick pe ps None = Some (r, d)"
  shows "\<exists>pre post. ps = pre @ r # post \<and>
         (\<forall>p\<in>set pre. \<bar>r - pe\<bar> < \<bar>p - pe\<bar>) \<and> (\<forall>p\<in>set post. \<bar>r - pe\<bar> \<le> \<bar>p - pe\<bar>)"
proof (cases ps)
  case Nil
  then show ?thesis using assms by simp
next
  case (Cons p qs)
  then have "pick pe qs (Some (p, \<bar>p - pe\<bar>)) = Some (r, d)" using assms by simp
  from pick_some [OF this] have
    "(r = p \<and> (\<forall>q\<in>set qs. \<bar>p - pe\<bar> \<le> \<bar>q - pe\<bar>)) \<or>
      (\<exists>pre post. qs = pre @ r # post \<and> \<bar>r - pe\<bar> < \<bar>p - pe\<bar> \<and>
         (\<forall>q\<in>set pre. \<bar>r - pe\<bar> < \<bar>q - pe\<bar>) \<and> (\<forall>q\<in>set post. \<bar>r - pe\<bar> \<le> \<bar>q - pe\<bar>))"
    by blast
  then show ?thesis
  proof
    assume "r = p \<and> (\<forall>q\<in>set qs. \<bar>p - pe\<bar> \<le> \<bar>q - pe\<bar>)"
    then have "ps = [] @ r # qs \<and> (\<forall>q\<in>set []. \<bar>r - pe\<bar> < \<bar>q - pe\<bar>) \<and>
        (\<forall>q\<in>set qs. \<bar>r - pe\<bar> \<le> \<bar>q - pe\<bar>)"
      using Cons by simp
    then show ?thesis by blast
  next
    assume "\<exists>pre post. qs = pre @ r # post \<and> \<bar>r - pe\<bar> < \<bar>p - pe\<bar> \<and>
         (\<forall>q\<in>set pre. \<bar>r - pe\<bar> < \<bar>q - pe\<bar>) \<and> (\<forall>q\<in>set post. \<bar>r - pe\<bar> \<le> \<bar>q - pe\<bar>)"
    then obtain pre post where pp: "qs = pre @ r # post" "\<bar>r - pe\<bar> < \<bar>p - pe\<bar>"
         "\<forall>q\<in>set pre. \<bar>r - pe\<bar> < \<bar>q - pe\<bar>" "\<forall>q\<in>set post. \<bar>r - pe\<bar> \<le> \<bar>q - pe\<bar>"
      by blast
    then have "ps = (p # pre) @ r # post \<and> (\<forall>q\<in>set (p # pre). \<bar>r - pe\<bar> < \<bar>q - pe\<bar>) \<and>
        (\<forall>q\<in>set post. \<bar>r - pe\<bar> \<le> \<bar>q - pe\<bar>)"
      using Cons by simp
    then show ?thesis by blast
  qed
qed

lemma space_before_spec:
  "0 \<le> lo \<Longrightarrow> i < len t \<Longrightarrow>
     (space_before t i lo = Inr None \<and> (\<forall>j. lo \<le> j \<and> j \<le> i \<longrightarrow> t ! nat j \<noteq> SP)) \<or>
     (\<exists>k. lo \<le> k \<and> k \<le> i \<and> t ! nat k = SP \<and> (\<forall>j. k < j \<and> j \<le> i \<longrightarrow> t ! nat j \<noteq> SP)
          \<and> space_before t i lo = Inr (Some (k + 1)))"
proof (induction t i lo rule: space_before.induct)
  case (1 t i lo)
  show ?case
  proof (cases "i < lo")
    case True
    then have "space_before t i lo = Inr None" by simp
    moreover have "\<forall>j. lo \<le> j \<and> j \<le> i \<longrightarrow> t ! nat j \<noteq> SP"
      using True by (intro allI impI) linarith
    ultimately show ?thesis by blast
  next
    case False
    then have i0: "0 \<le> i" using 1(3) by simp
    have ca: "char_at t i = Inr (t ! nat i)" using i0 1(4) by (simp add: char_at_def)
    show ?thesis
    proof (cases "t ! nat i = SP")
      case True
      then have "space_before t i lo = Inr (Some (i + 1))" using False 1(4) ca by simp
      then show ?thesis using True False by auto
    next
      case ns: False
      have eq: "space_before t i lo = space_before t (i - 1) lo"
        using False 1(4) ca ns by simp
      have ih: "(space_before t (i - 1) lo = Inr None \<and> (\<forall>j. lo \<le> j \<and> j \<le> i - 1 \<longrightarrow> t ! nat j \<noteq> SP)) \<or>
     (\<exists>k. lo \<le> k \<and> k \<le> i - 1 \<and> t ! nat k = SP \<and> (\<forall>j. k < j \<and> j \<le> i - 1 \<longrightarrow> t ! nat j \<noteq> SP)
          \<and> space_before t (i - 1) lo = Inr (Some (k + 1)))"
        using 1(1) [OF False _ ca ns 1(3)] 1(4) by simp
      from ih show ?thesis
      proof
        assume a: "space_before t (i - 1) lo = Inr None \<and> (\<forall>j. lo \<le> j \<and> j \<le> i - 1 \<longrightarrow> t ! nat j \<noteq> SP)"
        have "\<forall>j. lo \<le> j \<and> j \<le> i \<longrightarrow> t ! nat j \<noteq> SP"
        proof (intro allI impI)
          fix j assume "lo \<le> j \<and> j \<le> i"
          then have "j = i \<or> (lo \<le> j \<and> j \<le> i - 1)" by auto
          then show "t ! nat j \<noteq> SP" using a ns by blast
        qed
        then show ?thesis using a eq by simp
      next
        assume "\<exists>k. lo \<le> k \<and> k \<le> i - 1 \<and> t ! nat k = SP \<and> (\<forall>j. k < j \<and> j \<le> i - 1 \<longrightarrow> t ! nat j \<noteq> SP)
          \<and> space_before t (i - 1) lo = Inr (Some (k + 1))"
        then obtain k where k: "lo \<le> k" "k \<le> i - 1" "t ! nat k = SP"
          "\<forall>j. k < j \<and> j \<le> i - 1 \<longrightarrow> t ! nat j \<noteq> SP"
          "space_before t (i - 1) lo = Inr (Some (k + 1))" by blast
        have "\<forall>j. k < j \<and> j \<le> i \<longrightarrow> t ! nat j \<noteq> SP"
        proof (intro allI impI)
          fix j assume "k < j \<and> j \<le> i"
          then have "j = i \<or> (k < j \<and> j \<le> i - 1)" by auto
          then show "t ! nat j \<noteq> SP" using k(4) ns by blast
        qed
        then have "lo \<le> k \<and> k \<le> i \<and> t ! nat k = SP \<and> (\<forall>j. k < j \<and> j \<le> i \<longrightarrow> t ! nat j \<noteq> SP)
          \<and> space_before t i lo = Inr (Some (k + 1))" using k eq by simp
        then show ?thesis by blast
      qed
    qed
  qed
qed


lemma find_ge: "- 1 \<le> find s sub"
  by (induction s) (auto simp: Let_def)

lemma find_found:
  "find s sub \<noteq> - 1 \<Longrightarrow>
     0 \<le> find s sub \<and> find s sub + len sub \<le> len s \<and>
     take (length sub) (drop (nat (find s sub)) s) = sub"
proof (induction s)
  case Nil
  then show ?case by (auto split: if_splits)
next
  case (Cons c cs)
  show ?case
  proof (cases "take (length sub) (c # cs) = sub")
    case True
    then have "length (take (length sub) (c # cs)) = length sub" by simp
    then have "length sub \<le> length (c # cs)" by (simp add: min_def split: if_splits)
    then show ?thesis using True by simp
  next
    case False
    then have r: "find cs sub \<noteq> - 1" and e: "find (c # cs) sub = find cs sub + 1"
      using Cons.prems by (auto simp: Let_def split: if_splits)
    from Cons.IH [OF r] have ih: "0 \<le> find cs sub" "find cs sub + len sub \<le> len cs"
      "take (length sub) (drop (nat (find cs sub)) cs) = sub" by auto
    have "nat (find cs sub + 1) = Suc (nat (find cs sub))" using ih(1) by simp
    then show ?thesis using e ih by simp
  qed
qed

lemma find_leftmost:
  "0 \<le> i \<Longrightarrow> i < find s sub \<or> find s sub = - 1 \<Longrightarrow>
     take (length sub) (drop (nat i) s) \<noteq> sub"
proof (induction s arbitrary: i)
  case Nil
  then show ?case by (auto split: if_splits)
next
  case (Cons c cs)
  have nt: "take (length sub) (c # cs) \<noteq> sub"
    using Cons.prems by (auto split: if_splits)
  show ?case
  proof (cases "i = 0")
    case True
    then show ?thesis using nt by simp
  next
    case False
    then have i1: "0 \<le> i - 1" and n: "nat i = Suc (nat (i - 1))" using Cons.prems(1) by auto
    have "i - 1 < find cs sub \<or> find cs sub = - 1"
      using Cons.prems(2) nt find_ge [of cs sub] by (auto simp: Let_def split: if_splits)
    from Cons.IH [OF i1 this] show ?thesis using n by simp
  qed
qed

lemma find_subset: "find s sub \<noteq> - 1 \<Longrightarrow> set sub \<subseteq> set s"
proof -
  assume "find s sub \<noteq> - 1"
  then have "take (length sub) (drop (nat (find s sub)) s) = sub" using find_found by blast
  then have "set sub \<subseteq> set (drop (nat (find s sub)) s)" by (metis set_take_subset)
  then show ?thesis using set_drop_subset by fastforce
qed

text \<open>
  What the loop over the break kinds computes. For a candidate end strictly inside the
  text and after the chunk start, each break kind enters the comparison with one
  position only, the end of its leftmost occurrence in the window (the result of
  \<^verbatim>\<open>search_text.find(break_char)\<close>); the position returned is the closest of these to
  the candidate end, the earlier break kind winning a tie. Later occurrences of a kind
  are never compared. Without any break kind in the window, the result is one past the
  nearest space at or before the candidate end inside the window, or the candidate end.
\<close>

lemma find_natural_break_first_occurrences:
  assumes "0 \<le> start" and "start < preferred_end" and "preferred_end < len text"
  shows "let w = min 50 ((preferred_end - start) div 2);
             lo = max (preferred_end - w) start;
             hi = min (preferred_end + w) (len text);
             cands = first_break_ends (slice text lo hi) lo break_chars;
             r = find_natural_break text start preferred_end
         in (cands \<noteq> [] \<longrightarrow>
               (\<exists>pre post. cands = pre @ r # post \<and>
                  (\<forall>p\<in>set pre. \<bar>r - preferred_end\<bar> < \<bar>p - preferred_end\<bar>) \<and>
                  (\<forall>p\<in>set post. \<bar>r - preferred_end\<bar> \<le> \<bar>p - preferred_end\<bar>))) \<and>
            (cands = [] \<longrightarrow>
               ((\<exists>k. lo \<le> k \<and> k \<le> preferred_end \<and> text ! nat k = SP \<and>
                     (\<forall>j. k < j \<and> j \<le> preferred_end \<longrightarrow> text ! nat j \<noteq> SP) \<and> r = k + 1) \<or>
                ((\<forall>j. lo \<le> j \<and> j \<le> preferred_end \<longrightarrow> text ! nat j \<noteq> SP) \<and>
                  r = preferred_end)))"
proof -
  define w where "w = min 50 ((preferred_end - start) div 2)"
  define lo where "lo = max (preferred_end - w) start"
  define hi where "hi = min (preferred_end + w) (len text)"
  define cands where "cands = first_break_ends (slice text lo hi) lo break_chars"
  define r where "r = find_natural_break text start preferred_end"
  have lo0: "0 \<le> lo" using assms(1) by (simp add: lo_def)
  have r_eq: "r = (case pick preferred_end cands None of
                 Some (best_pos, best_distance) \<Rightarrow> best_pos
               | None \<Rightarrow> (case space_before text preferred_end lo of
                      Inr (Some p) \<Rightarrow> p | Inr None \<Rightarrow> preferred_end | Inl e \<Rightarrow> preferred_end))"
  proof -
    have c1: "\<not> preferred_end \<ge> len text" and c2: "\<not> preferred_end \<le> start"
      using assms(2,3) by auto
    show ?thesis
      unfolding r_def find_natural_break_def Let_def scan_breaks_pick cands_def lo_def hi_def w_def
      by (simp only: c1 c2 if_False)
  qed
  have A: "cands \<noteq> [] \<longrightarrow>
               (\<exists>pre post. cands = pre @ r # post \<and>
                  (\<forall>p\<in>set pre. \<bar>r - preferred_end\<bar> < \<bar>p - preferred_end\<bar>) \<and>
                  (\<forall>p\<in>set post. \<bar>r - preferred_end\<bar> \<le> \<bar>p - preferred_end\<bar>))"
  proof
    assume "cands \<noteq> []"
    then have "pick preferred_end cands None \<noteq> None" by (simp add: pick_none)
    then obtain b d where bd: "pick preferred_end cands None = Some (b, d)" by auto
    then have "r = b" using r_eq by simp
    then show "\<exists>pre post. cands = pre @ r # post \<and>
                  (\<forall>p\<in>set pre. \<bar>r - preferred_end\<bar> < \<bar>p - preferred_end\<bar>) \<and>
                  (\<forall>p\<in>set post. \<bar>r - preferred_end\<bar> \<le> \<bar>p - preferred_end\<bar>)"
      using pick_first_closest [OF bd] by simp
  qed
  have B: "cands = [] \<longrightarrow>
               ((\<exists>k. lo \<le> k \<and> k \<le> preferred_end \<and> text ! nat k = SP \<and>
                     (\<forall>j. k < j \<and> j \<le> preferred_end \<longrightarrow> text ! nat j \<noteq> SP) \<and> r = k + 1) \<or>
                ((\<forall>j. lo \<le> j \<and> j \<le> preferred_end \<longrightarrow> text ! nat j \<noteq> SP) \<and>
                  r = preferred_end))"
  proof
    assume "cands = []"
    then have r2: "r = (case space_before text preferred_end lo of
                      Inr (Some p) \<Rightarrow> p | Inr None \<Rightarrow> preferred_end | Inl e \<Rightarrow> preferred_end)"
      using r_eq by simp
    from space_before_spec [OF lo0 assms(3)]
    show "(\<exists>k. lo \<le> k \<and> k \<le> preferred_end \<and> text ! nat k = SP \<and>
                     (\<forall>j. k < j \<and> j \<le> preferred_end \<longrightarrow> text ! nat j \<noteq> SP) \<and> r = k + 1) \<or>
                ((\<forall>j. lo \<le> j \<and> j \<le> preferred_end \<longrightarrow> text ! nat j \<noteq> SP) \<and>
                  r = preferred_end)"
    proof
      assume "space_before text preferred_end lo = Inr None \<and>
         (\<forall>j. lo \<le> j \<and> j \<le> preferred_end \<longrightarrow> text ! nat j \<noteq> SP)"
      then show ?thesis using r2 by simp
    next
      assume "\<exists>k\<ge>lo. k \<le> preferred_end \<and> text ! nat k = SP \<and>
           (\<forall>j. k < j \<and> j \<le> preferred_end \<longrightarrow> text ! nat j \<noteq> SP) \<and>
           space_before text preferred_end lo = Inr (Some (k + 1))"
      then obtain k where "lo \<le> k" "k \<le> preferred_end" "text ! nat k = SP"
        "\<forall>j. k < j \<and> j \<le> preferred_end \<longrightarrow> text ! nat j \<noteq> SP"
        "space_before text preferred_end lo = Inr (Some (k + 1))" by blast
      then have "lo \<le> k \<and> k \<le> preferred_end \<and> text ! nat k = SP \<and>
                     (\<forall>j. k < j \<and> j \<le> preferred_end \<longrightarrow> text ! nat j \<noteq> SP) \<and> r = k + 1"
        using r2 by simp
      then show ?thesis by blast
    qed
  qed
  show ?thesis
    unfolding Let_def using A B
    by (simp only: w_def [symmetric] lo_def [symmetric] hi_def [symmetric]
          cands_def [symmetric] r_def [symmetric])
qed


text \<open>
  Claim C7: when several break positions are available in the search window, the one
  closest to the candidate end is returned. The code keeps a best position and a best
  distance for that purpose, but it misses the closest break here: in \<open>two_stops\<close>,
  with chunk start 0 and candidate end 10, a full stop followed by a space ends at
  position 10, the candidate end itself, inside the window from 5 to 15, and the
  position returned is 7, the end of the first full stop, at distance 3.
\<close>

theorem find_natural_break_not_closest:
  "10 < len two_stops \<and> 10 \<in> set (all_break_ends two_stops 5 15) \<and>
   find_natural_break two_stops 0 10 = 7 \<and> \<bar>10 - 10\<bar> < \<bar>7 - (10::int)\<bar>"
  by (simp add: find_natural_break_def all_break_ends_def slice_def two_stops_def
        break_chars_def Let_def upto.simps)

end
